theory Spec2Isabelle
  imports Complex_Main "HOL-Library.List_Lexorder" "HOL-Library.Product_Lexorder"
begin

section \<open>Python values\<close>

text \<open>
  A Python \<open>str\<close> is a sequence of Unicode code points, so it is modelled as a list of
  naturals; \<open>asc\<close> turns an ASCII literal of the source into such a list.
\<close>

type_synonym cp = nat
type_synonym ustr = "cp list"

definition asc :: "string \<Rightarrow> ustr" where
  "asc s = map of_char s"

text \<open>
  The values \<open>json.loads\<close> produces. A float is represented by the text \<open>repr\<close> prints
  for it (which determines the float); a \<open>dict\<close> is an association list in insertion
  order whose keys are pairwise different.
\<close>

datatype pyval =
    PNone
  | PBool bool
  | PInt int
  | PFloat ustr
  | PStr ustr
  | PList "pyval list"
  | PDict "(ustr \<times> pyval) list"

type_synonym pydict = "(ustr \<times> pyval) list"

text \<open>Truth value testing, as \<open>or\<close>, \<open>and\<close> and \<open>if\<close> apply it.\<close>

fun truthy :: "pyval \<Rightarrow> bool" where
  "truthy PNone = False"
| "truthy (PBool b) = b"
| "truthy (PInt i) = (i \<noteq> 0)"
| "truthy (PFloat r) = (r \<noteq> asc ''0.0'' \<and> r \<noteq> asc ''-0.0'')"
| "truthy (PStr s) = (s \<noteq> [])"
| "truthy (PList xs) = (xs \<noteq> [])"
| "truthy (PDict kvs) = (kvs \<noteq> [])"

definition py_or :: "pyval \<Rightarrow> pyval \<Rightarrow> pyval" where
  "py_or a b = (if truthy a then a else b)"

text \<open>\<open>d.get(k)\<close>: the value stored under \<open>k\<close>, \<open>None\<close> when the key is absent.\<close>

definition dict_get :: "pydict \<Rightarrow> ustr \<Rightarrow> pyval" where
  "dict_get d k = (case map_of d k of None \<Rightarrow> PNone | Some v \<Rightarrow> v)"

text \<open>\<open>d[k] = v\<close>: replaces the value of a present key in place, appends a new key.\<close>

fun dict_set :: "pydict \<Rightarrow> ustr \<Rightarrow> pyval \<Rightarrow> pydict" where
  "dict_set [] k v = [(k, v)]"
| "dict_set ((k', v') # d) k v = (if k' = k then (k, v) # d else (k', v') # dict_set d k v)"

fun isinstance_int :: "pyval \<Rightarrow> bool" where
  "isinstance_int (PInt i) = True"
| "isinstance_int (PBool b) = True"
| "isinstance_int v = False"

fun isinstance_str :: "pyval \<Rightarrow> bool" where
  "isinstance_str (PStr s) = True"
| "isinstance_str v = False"

text \<open>Decimal digits of a natural number, and \<open>str\<close> of an \<open>int\<close>.\<close>

fun dec :: "nat \<Rightarrow> ustr" where
  "dec n = (if n < 10 then [48 + n] else dec (n div 10) @ [48 + n mod 10])"

declare dec.simps [simp del]

definition str_int :: "int \<Rightarrow> ustr" where
  "str_int i = (if i < 0 then 45 # dec (nat (- i)) else dec (nat i))"

section \<open>The library functions the code calls\<close>

text \<open>
  The code calls \<open>unicodedata.normalize\<close>, \<open>unicodedata.combining\<close>, \<open>str.lower\<close>,
  \<open>str.isdigit\<close>, the regular-expression classes \<open>\w\<close> and \<open>\s\<close>, \<open>str\<close> of a list or
  a dict, and \<open>json.dumps\<close>. They are tables and functions of the Python library, not of
  this program, and are taken as a parameter.
\<close>

record pylib =
  uc_nfkd :: "ustr \<Rightarrow> ustr"
  uc_combining :: "cp \<Rightarrow> nat"
  str_lower :: "ustr \<Rightarrow> ustr"
  re_word :: "cp \<Rightarrow> bool"
  re_space :: "cp \<Rightarrow> bool"
  uc_isdigit :: "cp \<Rightarrow> bool"
  repr_compound :: "pyval \<Rightarrow> ustr"
  json_dumps :: "pyval \<Rightarrow> ustr"

text \<open>\<open>str(v)\<close>.\<close>

fun py_str :: "pylib \<Rightarrow> pyval \<Rightarrow> ustr" where
  "py_str L PNone = asc ''None''"
| "py_str L (PBool b) = (if b then asc ''True'' else asc ''False'')"
| "py_str L (PInt i) = str_int i"
| "py_str L (PFloat r) = r"
| "py_str L (PStr s) = s"
| "py_str L (PList xs) = repr_compound L (PList xs)"
| "py_str L (PDict kvs) = repr_compound L (PDict kvs)"

text \<open>\<open>s.isdigit()\<close>: at least one character, and all of them digits.\<close>

definition str_isdigit :: "pylib \<Rightarrow> ustr \<Rightarrow> bool" where
  "str_isdigit L s \<longleftrightarrow> s \<noteq> [] \<and> list_all (uc_isdigit L) s"

section \<open>Normalizer\<close>

text \<open>\<open>re.sub(r"\s+", " ", s)\<close>: every maximal run of whitespace becomes one space.\<close>

function collapse_ws :: "(cp \<Rightarrow> bool) \<Rightarrow> ustr \<Rightarrow> ustr" where
  "collapse_ws sp [] = []"
| "collapse_ws sp (c # cs) =
     (if sp c then 32 # collapse_ws sp (dropWhile sp cs) else c # collapse_ws sp cs)"
  by pat_completeness auto
termination
  by (relation "measure (\<lambda>(sp, s). length s)")
     (auto simp: length_dropWhile_le less_Suc_eq_le)

text \<open>\<open>s.strip()\<close>.\<close>

definition strip :: "(cp \<Rightarrow> bool) \<Rightarrow> ustr \<Rightarrow> ustr" where
  "strip sp s = rev (dropWhile sp (rev (dropWhile sp s)))"

definition normalize_name :: "pylib \<Rightarrow> pyval \<Rightarrow> ustr" where
  "normalize_name L name =
     (case name of
        PStr n \<Rightarrow>
          (let nfkd = uc_nfkd L n;
               no_diac = filter (\<lambda>c. uc_combining L c = 0) nfkd;
               s = str_lower L no_diac;
               s = filter (\<lambda>c. re_word L c \<or> re_space L c) s;
               s = strip (re_space L) (collapse_ws (re_space L) s)
           in s)
      | _ \<Rightarrow> [])"

section \<open>KeyExtractor\<close>

text \<open>
  The identifier lookup that \<open>key_for_player\<close>, \<open>canonical_keys\<close>,
  \<open>build_target_lookup\<close> and \<open>find_missing_and_flag_duplicates\<close> each spell out:
  the \<open>or\<close> chain over the four aliases, then the fallback to \<open>id\<close>.
\<close>

definition alias_chain :: "pydict \<Rightarrow> pyval" where
  "alias_chain p =
     py_or (py_or (py_or (dict_get p (asc ''transfermarkt_id''))
                         (dict_get p (asc ''transfermarktId'')))
                  (dict_get p (asc ''transfermarkt id'')))
           (dict_get p (asc ''transfermarkt''))"

definition id_fallback_ok :: "pylib \<Rightarrow> pyval \<Rightarrow> bool" where
  "id_fallback_ok L raw_id \<longleftrightarrow>
     isinstance_int raw_id \<or>
     (case raw_id of PStr s \<Rightarrow> str_isdigit L s | _ \<Rightarrow> False)"

definition resolve_tid :: "pylib \<Rightarrow> pydict \<Rightarrow> pyval" where
  "resolve_tid L p =
     (let tid = alias_chain p in
      if tid = PNone then
        (let raw_id = dict_get p (asc ''id'') in
         if id_fallback_ok L raw_id then raw_id else tid)
      else tid)"

definition key_for_player :: "pylib \<Rightarrow> pydict \<Rightarrow> ustr list" where
  "key_for_player L p =
     (let tid = resolve_tid L p;
          keys = [];
          keys = (if tid \<noteq> PNone then keys @ [asc ''tid::'' @ py_str L tid] else keys);
          name = py_or (dict_get p (asc ''name'')) (PStr []);
          nn = normalize_name L name;
          keys = (if nn \<noteq> [] then keys @ [asc ''name::'' @ nn] else keys)
      in keys)"

definition canonical_keys :: "pylib \<Rightarrow> pydict \<Rightarrow> ustr list" where
  "canonical_keys L player =
     (let keys = [];
          tid = resolve_tid L player;
          keys = (if tid \<noteq> PNone then keys @ [asc ''tid::'' @ py_str L tid] else keys);
          name = py_or (dict_get player (asc ''name'')) (PStr []);
          nn = normalize_name L name;
          keys = (if nn \<noteq> [] then keys @ [asc ''name::'' @ nn] else keys)
      in keys)"

section \<open>SimilarityScorer\<close>

text \<open>
  \<open>similar(a, b)\<close> is \<open>difflib.SequenceMatcher(None, a, b).ratio()\<close>. The matcher is
  modelled after the library's algorithm: \<open>isjunk\<close> is \<open>None\<close>, so no element is junk,
  and \<open>autojunk\<close> is on, so in a second sequence of 200 elements or more an element that
  occurs more than \<open>n // 100 + 1\<close> times is "popular" and left out of the index \<open>b2j\<close>.
\<close>

definition popular :: "'a list \<Rightarrow> 'a \<Rightarrow> bool" where
  "popular b x \<longleftrightarrow> 200 \<le> length b \<and> length b div 100 + 1 < count_list b x"

definition b2j :: "'a list \<Rightarrow> 'a \<Rightarrow> nat list" where
  "b2j b x = (if popular b x then [] else filter (\<lambda>j. b ! j = x) [0..<length b])"

definition isbjunk :: "'a \<Rightarrow> bool" where
  "isbjunk x = False"

text \<open>
  The inner loop of \<open>find_longest_match\<close> over the positions \<open>j\<close> of \<open>a[i]\<close> in \<open>b\<close>.
  The dictionaries \<open>j2len\<close> and \<open>newj2len\<close> are functions whose default is 0;
  \<open>j2len.get(j-1, 0)\<close> is 0 for \<open>j = 0\<close>, since \<open>-1\<close> is never a key.
\<close>

type_synonym flm_state = "(nat \<Rightarrow> nat) \<times> nat \<times> nat \<times> nat"

fun flm_inner :: "nat \<Rightarrow> nat \<Rightarrow> nat \<Rightarrow> (nat \<Rightarrow> nat) \<Rightarrow> nat list \<Rightarrow> flm_state \<Rightarrow> flm_state" where
  "flm_inner blo bhi i j2len [] st = st"
| "flm_inner blo bhi i j2len (j # js) (newj2len, besti, bestj, bestsize) =
     (if j < blo then flm_inner blo bhi i j2len js (newj2len, besti, bestj, bestsize)
      else if bhi \<le> j then (newj2len, besti, bestj, bestsize)
      else
        (let k = (if j = 0 then 0 else j2len (j - 1)) + 1;
             newj2len = newj2len(j := k)
         in if bestsize < k
            then flm_inner blo bhi i j2len js (newj2len, i + 1 - k, j + 1 - k, k)
            else flm_inner blo bhi i j2len js (newj2len, besti, bestj, bestsize)))"

text \<open>The outer loop \<open>for i in range(alo, ahi)\<close>.\<close>

fun flm_outer :: "'a list \<Rightarrow> 'a list \<Rightarrow> nat \<Rightarrow> nat \<Rightarrow> nat list \<Rightarrow> flm_state \<Rightarrow> flm_state" where
  "flm_outer a b blo bhi [] st = st"
| "flm_outer a b blo bhi (i # is) (j2len, besti, bestj, bestsize) =
     flm_outer a b blo bhi is
       (flm_inner blo bhi i j2len (b2j b (a ! i)) ((\<lambda>_. 0), besti, bestj, bestsize))"

text \<open>The four \<open>while\<close> loops that extend the best block, first by elements that are not
  junk, then by junk.\<close>

function extend_left :: "bool \<Rightarrow> 'a list \<Rightarrow> 'a list \<Rightarrow> nat \<Rightarrow> nat \<Rightarrow> nat \<times> nat \<times> nat \<Rightarrow> nat \<times> nat \<times> nat" where
  "extend_left junk a b alo blo (besti, bestj, bestsize) =
     (if alo < besti \<and> blo < bestj \<and> isbjunk (b ! (bestj - 1)) = junk
         \<and> a ! (besti - 1) = b ! (bestj - 1)
      then extend_left junk a b alo blo (besti - 1, bestj - 1, bestsize + 1)
      else (besti, bestj, bestsize))"
  by pat_completeness auto
termination
  by (relation "measure (\<lambda>(junk, a, b, alo, blo, besti, bestj, bestsize). besti)") auto

function extend_right :: "bool \<Rightarrow> 'a list \<Rightarrow> 'a list \<Rightarrow> nat \<Rightarrow> nat \<Rightarrow> nat \<times> nat \<times> nat \<Rightarrow> nat \<times> nat \<times> nat" where
  "extend_right junk a b ahi bhi (besti, bestj, bestsize) =
     (if besti + bestsize < ahi \<and> bestj + bestsize < bhi
         \<and> isbjunk (b ! (bestj + bestsize)) = junk
         \<and> a ! (besti + bestsize) = b ! (bestj + bestsize)
      then extend_right junk a b ahi bhi (besti, bestj, bestsize + 1)
      else (besti, bestj, bestsize))"
  by pat_completeness auto
termination
  by (relation "measure (\<lambda>(junk, a, b, ahi, bhi, besti, bestj, bestsize). ahi - (besti + bestsize))")
     auto

declare extend_left.simps [simp del]
declare extend_right.simps [simp del]

definition find_longest_match :: "'a list \<Rightarrow> 'a list \<Rightarrow> nat \<Rightarrow> nat \<Rightarrow> nat \<Rightarrow> nat \<Rightarrow> nat \<times> nat \<times> nat" where
  "find_longest_match a b alo ahi blo bhi =
     (case flm_outer a b blo bhi [alo..<ahi] ((\<lambda>_. 0), alo, blo, 0) of
        (j2len, besti, bestj, bestsize) \<Rightarrow>
          extend_right True a b ahi bhi
            (extend_left True a b alo blo
              (extend_right False a b ahi bhi
                (extend_left False a b alo blo (besti, bestj, bestsize)))))"

text \<open>
  What \<open>find_longest_match\<close> keeps true of its best block: it lies in the window, and
  stays at the window's corner while it is empty.
\<close>

definition flm_ok :: "nat \<Rightarrow> nat \<Rightarrow> nat \<Rightarrow> nat \<Rightarrow> nat \<times> nat \<times> nat \<Rightarrow> bool" where
  "flm_ok alo ahi blo bhi x =
     (case x of (besti, bestj, bestsize) \<Rightarrow>
        alo \<le> besti \<and> blo \<le> bestj
        \<and> (bestsize \<noteq> 0 \<longrightarrow> besti + bestsize \<le> ahi \<and> bestj + bestsize \<le> bhi)
        \<and> (bestsize = 0 \<longrightarrow> besti = alo \<and> bestj = blo))"

definition row_ok :: "nat \<Rightarrow> nat \<Rightarrow> nat \<Rightarrow> (nat \<Rightarrow> nat) \<Rightarrow> bool" where
  "row_ok alo blo n f \<longleftrightarrow> (\<forall>j. f j \<le> n - alo \<and> f j \<le> j + 1 - blo)"

lemma flm_inner_ok:
  assumes "row_ok alo blo i j2len" "alo \<le> i" "i < ahi"
    and "row_ok alo blo (i + 1) new" "flm_ok alo ahi blo bhi (bi, bj, bs)"
    and "flm_inner blo bhi i j2len js (new, bi, bj, bs) = (new', bi', bj', bs')"
  shows "row_ok alo blo (i + 1) new' \<and> flm_ok alo ahi blo bhi (bi', bj', bs')"
  using assms(4-6)
proof (induction js arbitrary: new bi bj bs)
  case Nil
  then show ?case by simp
next
  case (Cons j js)
  show ?case
  proof (cases "j < blo")
    case True
    with Cons show ?thesis by simp
  next
    case nlo: False
    show ?thesis
    proof (cases "bhi \<le> j")
      case True
      with nlo Cons show ?thesis by simp
    next
      case nhi: False
      define k where "k = (if j = 0 then 0 else j2len (j - 1)) + 1"
      have k1: "k \<le> i + 1 - alo" using assms(1,2) unfolding k_def row_ok_def
        by (auto simp: le_diff_conv2 intro: le_trans) 
      have k2: "k \<le> j + 1 - blo"
      proof (cases "j = 0")
        case True
        then show ?thesis using nlo by (simp add: k_def)
      next
        case False
        have "j2len (j - 1) \<le> (j - 1) + 1 - blo" using assms(1) by (simp add: row_ok_def)
        then show ?thesis using False nlo by (simp add: k_def)
      qed
      have rn: "row_ok alo blo (i + 1) (new(j := k))"
        using Cons.prems(1) k1 k2 unfolding row_ok_def by auto
      show ?thesis
      proof (cases "bs < k")
        case True
        have "flm_ok alo ahi blo bhi (i + 1 - k, j + 1 - k, k)"
          using k1 k2 assms(2,3) nlo nhi True unfolding flm_ok_def by auto
        moreover have "flm_inner blo bhi i j2len (j # js) (new, bi, bj, bs)
            = flm_inner blo bhi i j2len js (new(j := k), i + 1 - k, j + 1 - k, k)"
          using nlo nhi True by (simp add: k_def Let_def)
        with Cons.prems(3) have "flm_inner blo bhi i j2len js (new(j := k), i + 1 - k, j + 1 - k, k)
            = (new', bi', bj', bs')" by simp
        ultimately show ?thesis using Cons.IH[OF rn] by blast
      next
        case False
        have "flm_inner blo bhi i j2len (j # js) (new, bi, bj, bs)
            = flm_inner blo bhi i j2len js (new(j := k), bi, bj, bs)"
          using nlo nhi False by (simp add: k_def Let_def)
        with Cons.prems(3) have "flm_inner blo bhi i j2len js (new(j := k), bi, bj, bs)
            = (new', bi', bj', bs')" by simp
        then show ?thesis using Cons.IH[OF rn Cons.prems(2)] by blast
      qed
    qed
  qed
qed

lemma flm_outer_ok:
  assumes "row_ok alo blo i j2len" "alo \<le> i" "flm_ok alo ahi blo bhi (bi, bj, bs)"
    and "flm_outer a b blo bhi [i..<ahi] (j2len, bi, bj, bs) = (j2len', bi', bj', bs')"
  shows "flm_ok alo ahi blo bhi (bi', bj', bs')"
  using assms
proof (induction "ahi - i" arbitrary: i j2len bi bj bs)
  case 0
  then show ?case by simp
next
  case (Suc n)
  then have lt: "i < ahi" by simp
  obtain new bi1 bj1 bs1 where
    inner: "flm_inner blo bhi i j2len (b2j b (a ! i)) ((\<lambda>_. 0), bi, bj, bs) = (new, bi1, bj1, bs1)"
    by (metis prod_cases4)
  have r0: "row_ok alo blo (i + 1) (\<lambda>_. 0)" by (simp add: row_ok_def)
  from flm_inner_ok[OF Suc.prems(1) Suc.prems(2) lt r0 Suc.prems(3) inner]
  have r1: "row_ok alo blo (Suc i) new" and o1: "flm_ok alo ahi blo bhi (bi1, bj1, bs1)" by simp_all
  have "flm_outer a b blo bhi [i..<ahi] (j2len, bi, bj, bs)
      = flm_outer a b blo bhi [Suc i..<ahi] (new, bi1, bj1, bs1)"
    using lt inner by (simp add: upt_conv_Cons)
  with Suc.prems(4) have e: "flm_outer a b blo bhi [Suc i..<ahi] (new, bi1, bj1, bs1) = (j2len', bi', bj', bs')"
    by simp
  have n: "n = ahi - Suc i" using Suc.hyps(2) by simp
  show ?case using Suc.hyps(1)[OF n r1 _ o1 e] Suc.prems(2) by simp
qed

lemma extend_left_ok:
  "flm_ok alo ahi blo bhi x \<Longrightarrow> flm_ok alo ahi blo bhi (extend_left junk a b alo blo x)"
proof (induction junk a b alo blo x rule: extend_left.induct)
  case (1 junk a b alo blo besti bestj bestsize)
  show ?case
  proof (cases "alo < besti \<and> blo < bestj \<and> isbjunk (b ! (bestj - 1)) = junk
         \<and> a ! (besti - 1) = b ! (bestj - 1)")
    case True
    have "flm_ok alo ahi blo bhi (besti - 1, bestj - 1, bestsize + 1)"
      using "1.prems" True by (auto simp: flm_ok_def)
    from "1.IH"[OF True this] True show ?thesis by (simp add: extend_left.simps)
  next
    case False
    then show ?thesis using "1.prems" by (subst extend_left.simps) auto
  qed
qed

lemma extend_right_ok:
  "flm_ok alo ahi blo bhi x \<Longrightarrow> flm_ok alo ahi blo bhi (extend_right junk a b ahi bhi x)"
proof (induction junk a b ahi bhi x rule: extend_right.induct)
  case (1 junk a b ahi bhi besti bestj bestsize)
  show ?case
  proof (cases "besti + bestsize < ahi \<and> bestj + bestsize < bhi
         \<and> isbjunk (b ! (bestj + bestsize)) = junk
         \<and> a ! (besti + bestsize) = b ! (bestj + bestsize)")
    case True
    have "flm_ok alo ahi blo bhi (besti, bestj, bestsize + 1)"
      using "1.prems" True by (auto simp: flm_ok_def)
    from "1.IH"[OF True this] True show ?thesis by (simp add: extend_right.simps)
  next
    case False
    then show ?thesis using "1.prems" by (subst extend_right.simps) auto
  qed
qed

lemma find_longest_match_ok:
  "flm_ok alo ahi blo bhi (find_longest_match a b alo ahi blo bhi)"
proof -
  obtain j2len bi bj bs where
    e: "flm_outer a b blo bhi [alo..<ahi] ((\<lambda>_. 0), alo, blo, 0) = (j2len, bi, bj, bs)"
    by (metis prod_cases4)
  have "row_ok alo blo alo (\<lambda>_. 0)" by (simp add: row_ok_def)
  moreover have "flm_ok alo ahi blo bhi (alo, blo, 0)" by (simp add: flm_ok_def)
  ultimately have "flm_ok alo ahi blo bhi (bi, bj, bs)"
    using flm_outer_ok[OF _ _ _ e] by simp
  then show ?thesis
    unfolding find_longest_match_def e
    by (simp add: extend_left_ok extend_right_ok)
qed

lemma find_longest_match_bounds:
  assumes "find_longest_match a b alo ahi blo bhi = (i, j, k)" "k \<noteq> 0"
  shows "alo \<le> i \<and> i + k \<le> ahi \<and> blo \<le> j \<and> j + k \<le> bhi"
  using find_longest_match_ok[of alo ahi blo bhi a b] assms by (simp add: flm_ok_def)

text \<open>
  \<open>get_matching_blocks\<close>: the work list \<open>queue\<close> is a stack (\<open>pop\<close> takes its last
  element, \<open>append\<close> adds at the end).
\<close>

type_synonym window = "nat \<times> nat \<times> nat \<times> nat"
type_synonym block = "nat \<times> nat \<times> nat"

definition flm_window :: "'a list \<Rightarrow> 'a list \<Rightarrow> window \<Rightarrow> block" where
  "flm_window a b w = (case w of (alo, ahi, blo, bhi) \<Rightarrow> find_longest_match a b alo ahi blo bhi)"

definition gmb_push :: "window \<Rightarrow> block \<Rightarrow> window list" where
  "gmb_push w x =
     (case w of (alo, ahi, blo, bhi) \<Rightarrow> case x of (i, j, k) \<Rightarrow>
        (if alo < i \<and> blo < j then [(alo, i, blo, j)] else [])
        @ (if i + k < ahi \<and> j + k < bhi then [(i + k, ahi, j + k, bhi)] else []))"

definition block_size :: "block \<Rightarrow> nat" where
  "block_size x = (case x of (i, j, k) \<Rightarrow> k)"

definition a_width :: "window \<Rightarrow> nat" where
  "a_width w = (case w of (alo, ahi, blo, bhi) \<Rightarrow> ahi - alo)"

definition b_width :: "window \<Rightarrow> nat" where
  "b_width w = (case w of (alo, ahi, blo, bhi) \<Rightarrow> bhi - blo)"

lemma gmb_push_a_width:
  assumes "block_size (flm_window a b w) \<noteq> 0"
  shows "block_size (flm_window a b w) + sum_list (map a_width (gmb_push w (flm_window a b w)))
           \<le> a_width w"
proof -
  obtain alo ahi blo bhi where w: "w = (alo, ahi, blo, bhi)" by (metis prod_cases4)
  obtain i j k where x: "find_longest_match a b alo ahi blo bhi = (i, j, k)" by (metis prod_cases3)
  have "k \<noteq> 0" using assms by (simp add: w x flm_window_def block_size_def)
  from find_longest_match_bounds[OF x this] show ?thesis
    by (auto simp: w x flm_window_def block_size_def gmb_push_def a_width_def)
qed

lemma gmb_push_b_width:
  assumes "block_size (flm_window a b w) \<noteq> 0"
  shows "block_size (flm_window a b w) + sum_list (map b_width (gmb_push w (flm_window a b w)))
           \<le> b_width w"
proof -
  obtain alo ahi blo bhi where w: "w = (alo, ahi, blo, bhi)" by (metis prod_cases4)
  obtain i j k where x: "find_longest_match a b alo ahi blo bhi = (i, j, k)" by (metis prod_cases3)
  have "k \<noteq> 0" using assms by (simp add: w x flm_window_def block_size_def)
  from find_longest_match_bounds[OF x this] show ?thesis
    by (auto simp: w x flm_window_def block_size_def gmb_push_def b_width_def)
qed

lemma sum_list_odd_weights:
  "sum_list (map (\<lambda>w. 2 * f w + 1) ws) = 2 * sum_list (map f ws) + length (ws :: 'w list)"
  by (induction ws) simp_all

lemma gmb_push_length: "length (gmb_push w x) \<le> 2"
  by (auto simp: gmb_push_def split: prod.splits)

function gmb_loop :: "'a list \<Rightarrow> 'a list \<Rightarrow> window list \<Rightarrow> block list \<Rightarrow> block list" where
  "gmb_loop a b queue matching_blocks =
     (if queue = [] then matching_blocks
      else
        (let w = last queue;
             queue = butlast queue;
             x = flm_window a b w
         in if block_size x \<noteq> 0
            then gmb_loop a b (queue @ gmb_push w x) (matching_blocks @ [x])
            else gmb_loop a b queue matching_blocks))"
  by pat_completeness auto
termination
proof (relation "measure (\<lambda>(a, b, queue, mb). sum_list (map (\<lambda>w. 2 * a_width w + 1) queue))")
  show "wf (measure (\<lambda>(a, b, queue, mb). sum_list (map (\<lambda>w. 2 * a_width w + 1) queue)))"
    by simp
next
  fix a b :: "'a list" and queue :: "window list" and matching_blocks :: "block list"
    and x xa xb
  assume q: "queue \<noteq> []" and x: "x = last queue" and xa: "xa = butlast queue"
    and xb: "xb = flm_window a b x" and nz: "block_size xb \<noteq> 0"
  have split: "queue = xa @ [x]" using q x xa by simp
  have "sum_list (map (\<lambda>w. 2 * a_width w + 1) (gmb_push x xb))
          = 2 * sum_list (map a_width (gmb_push x xb)) + length (gmb_push x xb)"
    by (rule sum_list_odd_weights)
  also have "\<dots> \<le> 2 * sum_list (map a_width (gmb_push x xb)) + 2"
    using gmb_push_length[of x xb] by simp
  also have "\<dots> < 2 * a_width x + 1"
    using gmb_push_a_width[of a b x] nz by (simp add: xb)
  finally have "sum_list (map (\<lambda>w. 2 * a_width w + 1) (gmb_push x xb)) < 2 * a_width x + 1" .
  then show "((a, b, xa @ gmb_push x xb, matching_blocks @ [xb]), a, b, queue, matching_blocks)
      \<in> measure (\<lambda>(a, b, queue, mb). sum_list (map (\<lambda>w. 2 * a_width w + 1) queue))"
    unfolding split by simp
next
  fix a b :: "'a list" and queue :: "window list" and matching_blocks :: "block list"
    and x xa xb
  assume q: "queue \<noteq> []" and x: "x = last queue" and xa: "xa = butlast queue"
  have split: "queue = xa @ [x]" using q x xa by simp
  show "((a, b, xa, matching_blocks), a, b, queue, matching_blocks)
      \<in> measure (\<lambda>(a, b, queue, mb). sum_list (map (\<lambda>w. 2 * a_width w + 1) queue))"
    unfolding split by simp
qed

declare gmb_loop.simps [simp del]

text \<open>The loop that merges adjacent blocks, with its running block \<open>(i1, j1, k1)\<close>.\<close>

fun merge_adjacent :: "block list \<Rightarrow> block \<Rightarrow> block list \<Rightarrow> block list" where
  "merge_adjacent [] (i1, j1, k1) non_adjacent =
     (if k1 \<noteq> 0 then non_adjacent @ [(i1, j1, k1)] else non_adjacent)"
| "merge_adjacent ((i2, j2, k2) # rest) (i1, j1, k1) non_adjacent =
     (if i1 + k1 = i2 \<and> j1 + k1 = j2
      then merge_adjacent rest (i1, j1, k1 + k2) non_adjacent
      else merge_adjacent rest (i2, j2, k2)
             (if k1 \<noteq> 0 then non_adjacent @ [(i1, j1, k1)] else non_adjacent))"

definition get_matching_blocks :: "'a list \<Rightarrow> 'a list \<Rightarrow> block list" where
  "get_matching_blocks a b =
     (let la = length a;
          lb = length b;
          matching_blocks = gmb_loop a b [(0, la, 0, lb)] [];
          matching_blocks = sort matching_blocks;
          non_adjacent = merge_adjacent matching_blocks (0, 0, 0) []
      in non_adjacent @ [(la, lb, 0)])"

text \<open>
  \<open>ratio\<close> is \<open>2.0 * matches / length\<close>, and 1.0 when both sequences are empty. The
  float quotient is modelled by the exact rational; 0, 1 and every comparison with them
  are the same for both.
\<close>

definition calculate_ratio :: "nat \<Rightarrow> nat \<Rightarrow> rat" where
  "calculate_ratio matches len = (if len \<noteq> 0 then 2 * of_nat matches / of_nat len else 1)"

definition ratio :: "'a list \<Rightarrow> 'a list \<Rightarrow> rat" where
  "ratio a b =
     (let matches = sum_list (map block_size (get_matching_blocks a b))
      in calculate_ratio matches (length a + length b))"

definition similar :: "ustr \<Rightarrow> ustr \<Rightarrow> rat" where
  "similar a b = ratio a b"

subsection \<open>The ratio lies between 0 and 1\<close>

lemma gmb_loop_a_bound:
  "sum_list (map block_size (gmb_loop a b queue mb))
     \<le> sum_list (map block_size mb) + sum_list (map a_width queue)"
proof (induction a b queue mb rule: gmb_loop.induct)
  case (1 a b queue mb)
  show ?case
  proof (cases "queue = []")
    case True
    then show ?thesis by (simp add: gmb_loop.simps)
  next
    case ne: False
    define w where "w = last queue"
    define q where "q = butlast queue"
    define x where "x = flm_window a b w"
    have split: "queue = q @ [w]" using ne by (simp add: w_def q_def)
    show ?thesis
    proof (cases "block_size x \<noteq> 0")
      case True
      have step: "gmb_loop a b queue mb = gmb_loop a b (q @ gmb_push w x) (mb @ [x])"
        using ne True by (subst gmb_loop.simps) (simp add: w_def q_def x_def Let_def)
      have "sum_list (map block_size (gmb_loop a b (q @ gmb_push w x) (mb @ [x])))
              \<le> sum_list (map block_size (mb @ [x])) + sum_list (map a_width (q @ gmb_push w x))"
        using "1.IH"(1)[OF ne w_def q_def x_def True] .
      also have "\<dots> \<le> sum_list (map block_size mb) + sum_list (map a_width queue)"
        using gmb_push_a_width[of a b w] True by (simp add: x_def split)
      finally show ?thesis by (simp add: step)
    next
      case False
      have step: "gmb_loop a b queue mb = gmb_loop a b q mb"
        using ne False by (subst gmb_loop.simps) (simp add: w_def q_def x_def Let_def)
      have "sum_list (map block_size (gmb_loop a b q mb))
              \<le> sum_list (map block_size mb) + sum_list (map a_width q)"
        using "1.IH"(2)[OF ne w_def q_def x_def False] .
      then show ?thesis unfolding step by (simp add: split)
    qed
  qed
qed

lemma gmb_loop_b_bound:
  "sum_list (map block_size (gmb_loop a b queue mb))
     \<le> sum_list (map block_size mb) + sum_list (map b_width queue)"
proof (induction a b queue mb rule: gmb_loop.induct)
  case (1 a b queue mb)
  show ?case
  proof (cases "queue = []")
    case True
    then show ?thesis by (simp add: gmb_loop.simps)
  next
    case ne: False
    define w where "w = last queue"
    define q where "q = butlast queue"
    define x where "x = flm_window a b w"
    have split: "queue = q @ [w]" using ne by (simp add: w_def q_def)
    show ?thesis
    proof (cases "block_size x \<noteq> 0")
      case True
      have step: "gmb_loop a b queue mb = gmb_loop a b (q @ gmb_push w x) (mb @ [x])"
        using ne True by (subst gmb_loop.simps) (simp add: w_def q_def x_def Let_def)
      have "sum_list (map block_size (gmb_loop a b (q @ gmb_push w x) (mb @ [x])))
              \<le> sum_list (map block_size (mb @ [x])) + sum_list (map b_width (q @ gmb_push w x))"
        using "1.IH"(1)[OF ne w_def q_def x_def True] .
      also have "\<dots> \<le> sum_list (map block_size mb) + sum_list (map b_width queue)"
        using gmb_push_b_width[of a b w] True by (simp add: x_def split)
      finally show ?thesis by (simp add: step)
    next
      case False
      have step: "gmb_loop a b queue mb = gmb_loop a b q mb"
        using ne False by (subst gmb_loop.simps) (simp add: w_def q_def x_def Let_def)
      have "sum_list (map block_size (gmb_loop a b q mb))
              \<le> sum_list (map block_size mb) + sum_list (map b_width q)"
        using "1.IH"(2)[OF ne w_def q_def x_def False] .
      then show ?thesis unfolding step by (simp add: split)
    qed
  qed
qed

lemma merge_adjacent_sum:
  "sum_list (map block_size (merge_adjacent bs cur na))
     = sum_list (map block_size na) + block_size cur + sum_list (map block_size bs)"
  by (induction bs cur na rule: merge_adjacent.induct) (auto simp: block_size_def)

lemma insort_sum:
  "sum_list (map f (insort x xs)) = f x + sum_list (map f (xs :: block list))"
  for f :: "block \<Rightarrow> nat"
  by (induction xs) simp_all

lemma sort_sum:
  "sum_list (map f (sort xs)) = sum_list (map f (xs :: block list))"
  for f :: "block \<Rightarrow> nat"
  by (induction xs) (simp_all add: insort_sum)

lemma matches_eq:
  "sum_list (map block_size (get_matching_blocks a b))
     = sum_list (map block_size (gmb_loop a b [(0, length a, 0, length b)] []))"
  by (simp add: get_matching_blocks_def Let_def merge_adjacent_sum sort_sum block_size_def)

lemma matches_le:
  "sum_list (map block_size (get_matching_blocks a b)) \<le> length a"
  "sum_list (map block_size (get_matching_blocks a b)) \<le> length b"
  using gmb_loop_a_bound[of a b "[(0, length a, 0, length b)]" "[]"]
        gmb_loop_b_bound[of a b "[(0, length a, 0, length b)]" "[]"]
  by (simp_all add: matches_eq a_width_def b_width_def)

lemma ratio_range: "0 \<le> ratio a b \<and> ratio a b \<le> 1"
proof -
  define m where "m = sum_list (map block_size (get_matching_blocks a b))"
  have "2 * m \<le> length a + length b" using matches_le[of a b] by (simp add: m_def)
  then have "2 * (of_nat m :: rat) \<le> of_nat (length a + length b)"
    by (metis of_nat_le_iff of_nat_mult of_nat_numeral)
  then show ?thesis
    unfolding ratio_def calculate_ratio_def Let_def m_def[symmetric]
    by (auto simp: divide_le_eq_1 zero_less_mult_iff)
qed

subsection \<open>Sequences with no common element\<close>

lemma b2j_absent: "x \<notin> set b \<Longrightarrow> b2j b x = []"
  by (auto simp: b2j_def filter_empty_conv)

lemma flm_outer_no_index:
  assumes "\<forall>i\<in>set is. b2j b (a ! i) = []"
  shows "\<exists>j2len'. flm_outer a b blo bhi is (j2len, bi, bj, bs) = (j2len', bi, bj, bs)"
  using assms by (induction "is" arbitrary: j2len) simp_all

lemma gmb_loop_single_empty:
  assumes "block_size (flm_window a b w) = 0"
  shows "gmb_loop a b [w] [] = []"
  using assms by (simp add: gmb_loop.simps Let_def)

lemma gmb_loop_single_full:
  assumes "flm_window a b w = x" "block_size x \<noteq> 0" "gmb_push w x = []"
  shows "gmb_loop a b [w] [] = [x]"
proof -
  have "gmb_loop a b [w] [] = gmb_loop a b [] [x]"
    using assms by (subst gmb_loop.simps) (simp add: Let_def)
  then show ?thesis by (simp add: gmb_loop.simps)
qed

lemma find_longest_match_disjoint:
  assumes "set a \<inter> set b = {}"
  shows "find_longest_match a b 0 (length a) 0 (length b) = (0, 0, 0)"
proof -
  have "b2j b (a ! i) = []" if "i < length a" for i
  proof -
    have "a ! i \<in> set a" using that by simp
    then have "a ! i \<notin> set b" using assms by blast
    then show ?thesis by (rule b2j_absent)
  qed
  then have "\<forall>i\<in>set [0..<length a]. b2j b (a ! i) = []" by simp
  then obtain j2len' where
    o: "flm_outer a b 0 (length b) [0..<length a] ((\<lambda>_. 0), 0, 0, 0) = (j2len', 0, 0, 0)"
    using flm_outer_no_index by blast
  have neq: "a \<noteq> [] \<Longrightarrow> b \<noteq> [] \<Longrightarrow> a ! 0 \<noteq> b ! 0"
    using assms by (metis disjoint_iff length_greater_0_conv nth_mem)
  have l: "extend_left junk a b 0 0 (0, 0, 0) = (0, 0, 0)" for junk
    by (simp add: extend_left.simps)
  have r: "extend_right junk a b (length a) (length b) (0, 0, 0) = (0, 0, 0)" for junk
    using neq by (subst extend_right.simps) auto
  show ?thesis by (simp add: find_longest_match_def o l r)
qed

lemma ratio_disjoint:
  assumes "set a \<inter> set b = {}" "a \<noteq> [] \<or> b \<noteq> []"
  shows "ratio a b = 0"
proof -
  have "gmb_loop a b [(0, length a, 0, length b)] [] = []"
    by (rule gmb_loop_single_empty)
       (simp add: flm_window_def find_longest_match_disjoint[OF assms(1)] block_size_def)
  then show ?thesis using assms(2)
    by (auto simp: ratio_def get_matching_blocks_def calculate_ratio_def block_size_def)
qed

lemma ratio_empty: "ratio [] [] = 1"
proof -
  have "find_longest_match ([] :: 'a list) [] 0 0 0 0 = (0, 0, 0)"
    using find_longest_match_disjoint[of "[] :: 'a list" "[]"] by simp
  then have "gmb_loop ([] :: 'a list) [] [(0, 0, 0, 0)] [] = []"
    by (intro gmb_loop_single_empty) (simp add: flm_window_def block_size_def)
  then show ?thesis
    by (simp add: ratio_def get_matching_blocks_def calculate_ratio_def block_size_def)
qed

subsection \<open>A sequence compared with itself\<close>

text \<open>
  \<open>diag s i\<close> is the number of consecutive elements of \<open>s\<close> that are not popular and
  end just before position \<open>i\<close>: the longest run the inner loop can count on the diagonal.
\<close>

fun diag :: "'a list \<Rightarrow> nat \<Rightarrow> nat" where
  "diag s 0 = 0"
| "diag s (Suc i) = (if popular s (s ! i) then 0 else Suc (diag s i))"

lemma diag_le: "diag s i \<le> i"
  by (induction i) auto

definition self_row :: "'a list \<Rightarrow> nat \<Rightarrow> (nat \<Rightarrow> nat) \<Rightarrow> bool" where
  "self_row s i f \<longleftrightarrow> (\<forall>j. f j \<le> diag s i \<and> f j \<le> diag s (Suc j))"

definition self_best :: "'a list \<Rightarrow> nat \<Rightarrow> nat \<Rightarrow> nat \<times> nat \<times> nat \<Rightarrow> bool" where
  "self_best s i m x \<longleftrightarrow>
     (case x of (bi, bj, bs) \<Rightarrow> bi = bj \<and> bi + bs \<le> i \<and> (\<forall>i'\<le>m. diag s i' \<le> bs))"

lemma flm_inner_self:
  assumes i: "i < length s" and npi: "\<not> popular s (s ! i)"
    and row: "self_row s i j2len" and dg: "0 < i \<longrightarrow> j2len (i - 1) = diag s i"
    and js: "sorted js" "distinct js" "\<forall>j\<in>set js. j < length s \<and> s ! j = s ! i"
    and new: "self_row s (Suc i) new"
    and best: "self_best s (Suc i) i (bi, bj, bs)"
    and flag: "i \<in> set js \<or> (diag s (Suc i) \<le> bs \<and> new i = diag s (Suc i) \<and> (\<forall>j\<in>set js. i < j))"
    and res: "flm_inner 0 (length s) i j2len js (new, bi, bj, bs) = (new', bi', bj', bs')"
  shows "self_row s (Suc i) new' \<and> self_best s (Suc i) (Suc i) (bi', bj', bs')
         \<and> new' i = diag s (Suc i)"
  using js new best flag res
proof (induction js arbitrary: new bi bj bs)
  case Nil
  then show ?case by (auto simp: self_best_def le_Suc_eq)
next
  case (Cons j js)
  have jl: "j < length s" and sj: "s ! j = s ! i" using Cons.prems(3) by auto
  have npj: "\<not> popular s (s ! j)" using npi sj by simp
  define k where "k = (if j = 0 then 0 else j2len (j - 1)) + 1"
  have kj: "k \<le> diag s (Suc j)"
  proof (cases "j = 0")
    case True
    then show ?thesis using npj by (simp add: k_def)
  next
    case False
    have "j2len (j - 1) \<le> diag s (Suc (j - 1))" using row by (simp add: self_row_def)
    then show ?thesis using False npj by (simp add: k_def)
  qed
  have ki: "k \<le> diag s (Suc i)"
  proof -
    have "(if j = 0 then 0 else j2len (j - 1)) \<le> diag s i" using row by (simp add: self_row_def)
    then show ?thesis using npi by (simp add: k_def)
  qed
  have rn: "self_row s (Suc i) (new(j := k))"
    using Cons.prems(4) kj ki by (simp add: self_row_def del: diag.simps)
  have srt: "sorted js" "distinct js" "\<forall>j\<in>set js. j < length s \<and> s ! j = s ! i"
    using Cons.prems(1-3) by auto
  have lt_all: "\<forall>j'\<in>set js. j < j'" using Cons.prems(1,2) by (auto simp: le_less)
  have bs_i: "\<forall>i'\<le>i. diag s i' \<le> bs" and bij: "bi = bj" and bsum: "bi + bs \<le> Suc i"
    using Cons.prems(5) by (auto simp: self_best_def)
  consider (lt) "j < i" | (eq) "j = i" | (gt) "i < j" by linarith
  then show ?case
  proof cases
    case lt
    then have "Suc j \<le> i" by simp
    then have "k \<le> bs" using kj bs_i le_trans by blast
    then have step: "flm_inner 0 (length s) i j2len (j # js) (new, bi, bj, bs)
        = flm_inner 0 (length s) i j2len js (new(j := k), bi, bj, bs)"
      using jl by (simp add: k_def Let_def)
    have "i \<in> set js" using Cons.prems(6) lt by auto
    then have fl: "i \<in> set js \<or> (diag s (Suc i) \<le> bs \<and> (new(j := k)) i = diag s (Suc i)
        \<and> (\<forall>j\<in>set js. i < j))" by simp
    from Cons.prems(7) step
    have "flm_inner 0 (length s) i j2len js (new(j := k), bi, bj, bs) = (new', bi', bj', bs')"
      by simp
    from Cons.IH[OF srt rn Cons.prems(5) fl this] show ?thesis .
  next
    case eq
    have kd: "k = diag s (Suc i)"
    proof (cases "i = 0")
      case True
      then show ?thesis using npi eq by (simp add: k_def)
    next
      case False
      then show ?thesis using dg npi eq by (simp add: k_def)
    qed
    have k1: "k \<le> Suc i" using kd diag_le[of s "Suc i"] by simp
    show ?thesis
    proof (cases "bs < k")
      case True
      have step: "flm_inner 0 (length s) i j2len (j # js) (new, bi, bj, bs)
          = flm_inner 0 (length s) i j2len js (new(j := k), i + 1 - k, j + 1 - k, k)"
        using jl True by (simp add: k_def Let_def)
      have b': "self_best s (Suc i) i (i + 1 - k, j + 1 - k, k)"
        using eq k1 True bs_i by (auto simp: self_best_def intro: le_trans less_imp_le)
      have fl: "i \<in> set js \<or> (diag s (Suc i) \<le> k \<and> (new(j := k)) i = diag s (Suc i)
          \<and> (\<forall>j\<in>set js. i < j))"
        using kd eq lt_all by simp
      from Cons.prems(7) step
      have "flm_inner 0 (length s) i j2len js (new(j := k), i + 1 - k, j + 1 - k, k)
          = (new', bi', bj', bs')" by simp
      from Cons.IH[OF srt rn b' fl this] show ?thesis .
    next
      case False
      have step: "flm_inner 0 (length s) i j2len (j # js) (new, bi, bj, bs)
          = flm_inner 0 (length s) i j2len js (new(j := k), bi, bj, bs)"
        using jl False by (simp add: k_def Let_def)
      have fl: "i \<in> set js \<or> (diag s (Suc i) \<le> bs \<and> (new(j := k)) i = diag s (Suc i)
          \<and> (\<forall>j\<in>set js. i < j))"
        using kd eq lt_all False by simp
      from Cons.prems(7) step
      have "flm_inner 0 (length s) i j2len js (new(j := k), bi, bj, bs) = (new', bi', bj', bs')"
        by simp
      from Cons.IH[OF srt rn Cons.prems(5) fl this] show ?thesis .
    qed
  next
    case gt
    then have dn: "diag s (Suc i) \<le> bs" "new i = diag s (Suc i)"
      using Cons.prems(6) lt_all by (auto simp del: diag.simps)
    have "k \<le> bs" using ki dn(1) by simp
    then have step: "flm_inner 0 (length s) i j2len (j # js) (new, bi, bj, bs)
        = flm_inner 0 (length s) i j2len js (new(j := k), bi, bj, bs)"
      using jl by (simp add: k_def Let_def)
    have fl: "i \<in> set js \<or> (diag s (Suc i) \<le> bs \<and> (new(j := k)) i = diag s (Suc i)
        \<and> (\<forall>j\<in>set js. i < j))"
      using dn gt lt_all by auto
    from Cons.prems(7) step
    have "flm_inner 0 (length s) i j2len js (new(j := k), bi, bj, bs) = (new', bi', bj', bs')"
      by simp
    from Cons.IH[OF srt rn Cons.prems(5) fl this] show ?thesis .
  qed
qed

lemma b2j_sorted: "sorted (b2j s x)" "distinct (b2j s x)"
  by (simp_all add: b2j_def sorted_wrt_filter)

lemma b2j_set: "set (b2j s x) = (if popular s x then {} else {j. j < length s \<and> s ! j = x})"
  by (auto simp: b2j_def)

lemma flm_row_self:
  assumes i: "i < length s"
    and row: "self_row s i j2len" and dg: "0 < i \<longrightarrow> j2len (i - 1) = diag s i"
    and best: "self_best s i i (bi, bj, bs)"
    and res: "flm_inner 0 (length s) i j2len (b2j s (s ! i)) ((\<lambda>_. 0), bi, bj, bs)
                = (new', bi', bj', bs')"
  shows "self_row s (Suc i) new' \<and> self_best s (Suc i) (Suc i) (bi', bj', bs')
         \<and> new' i = diag s (Suc i)"
proof (cases "popular s (s ! i)")
  case True
  then have "b2j s (s ! i) = []" by (simp add: b2j_def)
  with res have "new' = (\<lambda>_. 0)" "bi' = bi" "bj' = bj" "bs' = bs" by simp_all
  then show ?thesis using best True
    by (auto simp: self_row_def self_best_def le_Suc_eq)
next
  case False
  have js: "\<forall>j\<in>set (b2j s (s ! i)). j < length s \<and> s ! j = s ! i"
    by (simp add: b2j_set False)
  have mem: "i \<in> set (b2j s (s ! i))" using i False by (simp add: b2j_set)
  have new: "self_row s (Suc i) (\<lambda>_. 0)" by (simp add: self_row_def)
  have b0: "self_best s (Suc i) i (bi, bj, bs)" using best by (auto simp: self_best_def)
  show ?thesis
    using flm_inner_self[OF i False row dg b2j_sorted js new b0 _ res] mem by blast
qed

lemma flm_outer_self:
  assumes "i \<le> length s"
    and "self_row s i j2len" and "0 < i \<longrightarrow> j2len (i - 1) = diag s i"
    and "self_best s i i (bi, bj, bs)"
    and "flm_outer s s 0 (length s) [i..<length s] (j2len, bi, bj, bs) = (j2len', bi', bj', bs')"
  shows "bi' = bj' \<and> bi' + bs' \<le> length s"
  using assms
proof (induction "length s - i" arbitrary: i j2len bi bj bs)
  case 0
  then show ?case by (simp add: self_best_def)
next
  case (Suc m)
  then have lt: "i < length s" by simp
  obtain new bi1 bj1 bs1 where
    inner: "flm_inner 0 (length s) i j2len (b2j s (s ! i)) ((\<lambda>_. 0), bi, bj, bs)
              = (new, bi1, bj1, bs1)"
    by (metis prod_cases4)
  from flm_row_self[OF lt Suc.prems(2) Suc.prems(3) Suc.prems(4) inner]
  have r1: "self_row s (Suc i) new" and b1: "self_best s (Suc i) (Suc i) (bi1, bj1, bs1)"
    and d1: "0 < Suc i \<longrightarrow> new (Suc i - 1) = diag s (Suc i)" by simp_all
  have "flm_outer s s 0 (length s) [i..<length s] (j2len, bi, bj, bs)
      = flm_outer s s 0 (length s) [Suc i..<length s] (new, bi1, bj1, bs1)"
    using lt inner by (simp add: upt_conv_Cons)
  with Suc.prems(5)
  have e: "flm_outer s s 0 (length s) [Suc i..<length s] (new, bi1, bj1, bs1)
             = (j2len', bi', bj', bs')" by simp
  have m: "m = length s - Suc i" using Suc.hyps(2) by simp
  have le: "Suc i \<le> length s" using lt by simp
  show ?case using Suc.hyps(1)[OF m le r1 d1 b1 e] .
qed

lemma extend_left_self: "extend_left False s s 0 0 (bi, bi, bs) = (0, 0, bs + bi)"
proof (induction bi arbitrary: bs)
  case 0
  then show ?case by (simp add: extend_left.simps)
next
  case (Suc bi)
  have "extend_left False s s 0 0 (Suc bi, Suc bi, bs) = extend_left False s s 0 0 (bi, bi, bs + 1)"
    by (subst extend_left.simps) (simp add: isbjunk_def)
  then show ?case using Suc[of "bs + 1"] by simp
qed

lemma extend_right_self:
  "m \<le> length s \<Longrightarrow> extend_right False s s (length s) (length s) (0, 0, m) = (0, 0, length s)"
proof (induction "length s - m" arbitrary: m)
  case 0
  then show ?case by (simp add: extend_right.simps)
next
  case (Suc d)
  then have lt: "m < length s" by simp
  have "extend_right False s s (length s) (length s) (0, 0, m)
      = extend_right False s s (length s) (length s) (0, 0, m + 1)"
    using lt by (subst extend_right.simps) (simp add: isbjunk_def)
  moreover have "d = length s - (m + 1)" using Suc.hyps(2) by simp
  moreover have "m + 1 \<le> length s" using lt by simp
  ultimately show ?case using Suc.hyps(1)[of "m + 1"] by simp
qed

lemma find_longest_match_self:
  "find_longest_match s s 0 (length s) 0 (length s) = (0, 0, length s)"
proof -
  obtain j2len bi bj bs where
    o: "flm_outer s s 0 (length s) [0..<length s] ((\<lambda>_. 0), 0, 0, 0) = (j2len, bi, bj, bs)"
    by (metis prod_cases4)
  have "self_row s 0 (\<lambda>_. 0)" by (simp add: self_row_def)
  moreover have "self_best s 0 0 (0, 0, 0)" by (simp add: self_best_def)
  ultimately have d: "bi = bj" and le: "bi + bs \<le> length s"
    using flm_outer_self[OF _ _ _ _ o] by simp_all
  have l: "extend_left False s s 0 0 (bi, bj, bs) = (0, 0, bs + bi)"
    unfolding d[symmetric] by (rule extend_left_self)
  have r: "extend_right False s s (length s) (length s) (0, 0, bs + bi) = (0, 0, length s)"
    using le by (intro extend_right_self) simp
  have l2: "extend_left True s s 0 0 (0, 0, length s) = (0, 0, length s)"
    by (simp add: extend_left.simps)
  have r2: "extend_right True s s (length s) (length s) (0, 0, length s) = (0, 0, length s)"
    by (simp add: extend_right.simps)
  show ?thesis by (simp add: find_longest_match_def o l r l2 r2)
qed

lemma ratio_self: "ratio s s = 1"
proof (cases "s = []")
  case True
  then show ?thesis by (simp add: ratio_empty)
next
  case False
  have w: "flm_window s s (0, length s, 0, length s) = (0, 0, length s)"
    by (simp add: flm_window_def find_longest_match_self)
  have "gmb_loop s s [(0, length s, 0, length s)] [] = [(0, 0, length s)]"
    by (rule gmb_loop_single_full[OF w]) (simp_all add: block_size_def gmb_push_def False)
  then have "sum_list (map block_size (get_matching_blocks s s)) = length s"
    by (simp add: matches_eq block_size_def)
  then show ?thesis using False
    by (simp add: ratio_def calculate_ratio_def)
qed

subsection \<open>The properties of \<open>similar\<close>\<close>

text \<open>
  C5, as the code has it. For all strings the similarity lies between 0 and 1; a string
  compared with itself gives 1; two strings with no character in common, not both
  empty, give 0. (Two empty strings have no character in common and give 1.) Symmetry is
  not part of it: the matcher treats its two arguments differently.
\<close>

theorem similar_properties:
  "0 \<le> similar a b \<and> similar a b \<le> 1
   \<and> similar a a = 1
   \<and> (set a \<inter> set b = {} \<and> (a \<noteq> [] \<or> b \<noteq> []) \<longrightarrow> similar a b = 0)"
  unfolding similar_def
  using ratio_range[of a b] ratio_self[of a] ratio_disjoint[of a b] by blast

theorem similar_properties_witness:
  "similar (asc ''abc'') (asc ''xyz'') = 0
   \<and> similar (asc ''abc'') (asc ''abc'') = 1
   \<and> 0 \<le> similar (asc ''abc'') (asc ''xyz'') \<and> similar (asc ''abc'') (asc ''xyz'') \<le> 1"
proof -
  have d: "set (asc ''abc'') \<inter> set (asc ''xyz'') = {}" by (simp add: asc_def)
  have n: "asc ''abc'' \<noteq> []" by (simp add: asc_def)
  show ?thesis using similar_properties[of "asc ''abc''" "asc ''xyz''"] d n by blast
qed

section \<open>A fragment of the library tables\<close>

text \<open>
  The entries of the Unicode tables for the ASCII range and for the precomposed letters
  of the Latin-1 Supplement (\<open>U+00C0\<close> to \<open>U+00FF\<close>), with the combining marks their
  decompositions use. Concrete inputs below are evaluated with it. \<open>str\<close> of a list or
  a dict and \<open>json.dumps\<close> are not tabulated (the value is the empty text) and are not
  used at those inputs.
\<close>

definition latin1_table :: "(cp \<times> cp \<times> cp) list" where
  "latin1_table =
     [(192, 65, 768), (193, 65, 769), (194, 65, 770), (195, 65, 771), (196, 65, 776),
      (197, 65, 778), (199, 67, 807), (200, 69, 768), (201, 69, 769), (202, 69, 770),
      (203, 69, 776), (204, 73, 768), (205, 73, 769), (206, 73, 770), (207, 73, 776),
      (209, 78, 771), (210, 79, 768), (211, 79, 769), (212, 79, 770), (213, 79, 771),
      (214, 79, 776), (217, 85, 768), (218, 85, 769), (219, 85, 770), (220, 85, 776),
      (221, 89, 769),
      (224, 97, 768), (225, 97, 769), (226, 97, 770), (227, 97, 771), (228, 97, 776),
      (229, 97, 778), (231, 99, 807), (232, 101, 768), (233, 101, 769), (234, 101, 770),
      (235, 101, 776), (236, 105, 768), (237, 105, 769), (238, 105, 770), (239, 105, 776),
      (241, 110, 771), (242, 111, 768), (243, 111, 769), (244, 111, 770), (245, 111, 771),
      (246, 111, 776), (249, 117, 768), (250, 117, 769), (251, 117, 770), (252, 117, 776),
      (253, 121, 769), (255, 121, 776)]"

definition latin1_decomp :: "cp \<Rightarrow> ustr" where
  "latin1_decomp c = (case map_of latin1_table c of Some (base, mark) \<Rightarrow> [base, mark] | None \<Rightarrow> [c])"

definition latin1_lower :: "cp \<Rightarrow> cp" where
  "latin1_lower c =
     (if (65 \<le> c \<and> c \<le> 90) \<or> (192 \<le> c \<and> c \<le> 222 \<and> c \<noteq> 215) then c + 32 else c)"

definition latin1_lib :: pylib where
  "latin1_lib =
     \<lparr> uc_nfkd = (\<lambda>s. concat (map latin1_decomp s)),
       uc_combining = (\<lambda>c. if c = 807 then 202 else if 768 \<le> c \<and> c \<le> 788 then 230 else 0),
       str_lower = map latin1_lower,
       re_word = (\<lambda>c. (48 \<le> c \<and> c \<le> 57) \<or> (65 \<le> c \<and> c \<le> 90) \<or> c = 95
                     \<or> (97 \<le> c \<and> c \<le> 122)
                     \<or> (192 \<le> c \<and> c \<le> 255 \<and> c \<noteq> 215 \<and> c \<noteq> 247)),
       re_space = (\<lambda>c. (9 \<le> c \<and> c \<le> 13) \<or> (28 \<le> c \<and> c \<le> 32)),
       uc_isdigit = (\<lambda>c. 48 \<le> c \<and> c \<le> 57),
       repr_compound = (\<lambda>v. []),
       json_dumps = (\<lambda>v. []) \<rparr>"

section \<open>Properties of the KeyExtractor\<close>

definition id_aliases :: "ustr list" where
  "id_aliases = [asc ''transfermarkt_id'', asc ''transfermarktId'', asc ''transfermarkt id'',
                 asc ''transfermarkt'']"

lemma alias_chain_first_truthy:
  "find truthy (map (dict_get p) id_aliases) = Some v \<Longrightarrow> alias_chain p = v"
  by (auto simp: id_aliases_def alias_chain_def py_or_def split: if_splits)

lemma alias_chain_all_none:
  "list_all (\<lambda>k. dict_get p k = PNone) id_aliases \<Longrightarrow> alias_chain p = PNone"
  by (simp add: id_aliases_def alias_chain_def py_or_def)

lemma truthy_not_None: "truthy v \<Longrightarrow> v \<noteq> PNone"
  by (cases v) simp_all

lemma id_fallback_ok_iff:
  "id_fallback_ok L v \<longleftrightarrow>
     (\<exists>i. v = PInt i) \<or> (\<exists>b. v = PBool b)
     \<or> (\<exists>s. v = PStr s \<and> s \<noteq> [] \<and> list_all (uc_isdigit L) s)"
  by (cases v) (auto simp: id_fallback_ok_def str_isdigit_def)

lemma canonical_keys_eq: "canonical_keys L p = key_for_player L p"
  by (simp add: canonical_keys_def key_for_player_def Let_def)

lemma resolve_tid_first_truthy:
  assumes "find truthy (map (dict_get p) id_aliases) = Some v"
  shows "resolve_tid L p = v"
proof -
  have a: "alias_chain p = v" using assms by (rule alias_chain_first_truthy)
  have "truthy v" using assms by (auto simp: find_Some_iff)
  then have "v \<noteq> PNone" by (rule truthy_not_None)
  then show ?thesis by (simp add: resolve_tid_def a)
qed

lemma resolve_tid_fallback:
  assumes "list_all (\<lambda>k. dict_get p k = PNone) id_aliases"
  shows "resolve_tid L p
           = (if id_fallback_ok L (dict_get p (asc ''id'')) then dict_get p (asc ''id'') else PNone)"
  using alias_chain_all_none[OF assms] by (simp add: resolve_tid_def Let_def)

text \<open>
  C4, as the code has it. Both key extractors return the same list: at most two keys, the
  identifier key (if the record resolves to an identifier) before the name key (if the
  normalized name is not empty). The identifier is the first alias value that is true
  in Python's sense (not \<open>None\<close>, and not empty or zero either), when there is one. When
  every alias is absent or null, the field \<open>id\<close> is taken if and only if its value is an
  \<open>int\<close> (Python counts \<open>True\<close> and \<open>False\<close> among them) or a non-empty string of
  digits.
\<close>

theorem key_extractor_keys:
  "key_for_player L p
     = (if resolve_tid L p \<noteq> PNone then [asc ''tid::'' @ py_str L (resolve_tid L p)] else [])
       @ (if normalize_name L (py_or (dict_get p (asc ''name'')) (PStr [])) \<noteq> []
          then [asc ''name::'' @ normalize_name L (py_or (dict_get p (asc ''name'')) (PStr []))]
          else [])
   \<and> canonical_keys L p = key_for_player L p
   \<and> length (key_for_player L p) \<le> 2
   \<and> (\<forall>v. find truthy (map (dict_get p) id_aliases) = Some v \<longrightarrow> resolve_tid L p = v)
   \<and> (list_all (\<lambda>k. dict_get p k = PNone) id_aliases \<longrightarrow>
        resolve_tid L p
          = (if id_fallback_ok L (dict_get p (asc ''id'')) then dict_get p (asc ''id'') else PNone))
   \<and> (\<forall>raw_id. id_fallback_ok L raw_id \<longleftrightarrow>
        (\<exists>i. raw_id = PInt i) \<or> (\<exists>b. raw_id = PBool b)
        \<or> (\<exists>s. raw_id = PStr s \<and> s \<noteq> [] \<and> list_all (uc_isdigit L) s))"
proof (intro conjI allI impI)
  show "key_for_player L p
     = (if resolve_tid L p \<noteq> PNone then [asc ''tid::'' @ py_str L (resolve_tid L p)] else [])
       @ (if normalize_name L (py_or (dict_get p (asc ''name'')) (PStr [])) \<noteq> []
          then [asc ''name::'' @ normalize_name L (py_or (dict_get p (asc ''name'')) (PStr []))]
          else [])"
    by (simp add: key_for_player_def Let_def)
  show "canonical_keys L p = key_for_player L p" by (rule canonical_keys_eq)
  show "length (key_for_player L p) \<le> 2" by (simp add: key_for_player_def Let_def)
  show "resolve_tid L p = v" if "find truthy (map (dict_get p) id_aliases) = Some v" for v
    using that by (rule resolve_tid_first_truthy)
  show "resolve_tid L p
          = (if id_fallback_ok L (dict_get p (asc ''id'')) then dict_get p (asc ''id'') else PNone)"
    if "list_all (\<lambda>k. dict_get p k = PNone) id_aliases"
    using that by (rule resolve_tid_fallback)
  show "id_fallback_ok L raw_id \<longleftrightarrow>
        (\<exists>i. raw_id = PInt i) \<or> (\<exists>b. raw_id = PBool b)
        \<or> (\<exists>s. raw_id = PStr s \<and> s \<noteq> [] \<and> list_all (uc_isdigit L) s)" for raw_id
    by (rule id_fallback_ok_iff)
qed

section \<open>GroupBuilder\<close>

text \<open>
  The clustering dictionaries \<open>by_key\<close> and \<open>groups_map\<close> are association lists in
  insertion order, the order in which \<open>items()\<close> yields them.
  \<open>d.setdefault(k, []).append(v)\<close> appends to the list under a present key and adds a new
  key at the end.
\<close>

fun setdefault_append :: "('k \<times> 'v list) list \<Rightarrow> 'k \<Rightarrow> 'v \<Rightarrow> ('k \<times> 'v list) list" where
  "setdefault_append [] k v = [(k, [v])]"
| "setdefault_append ((k', vs) # d) k v =
     (if k' = k then (k', vs @ [v]) # d else (k', vs) # setdefault_append d k v)"

subsection \<open>Duplicates inside one dataset: \<open>find_duplicates\<close>\<close>

text \<open>An occurrence \<open>{"index": idx, "player": p}\<close> and a group
  \<open>{"key": k, "indices": [...], "members": [...]}\<close>.\<close>

type_synonym fd_occ = "nat \<times> pydict"

record dup_group =
  g_key :: ustr
  g_indices :: "nat list"
  g_members :: "pydict list"

text \<open>The body of the first loop, for one \<open>(idx, p)\<close> of \<open>enumerate(players)\<close>.\<close>

definition fd_register :: "pylib \<Rightarrow> (ustr \<times> fd_occ list) list \<Rightarrow> fd_occ \<Rightarrow> (ustr \<times> fd_occ list) list" where
  "fd_register L by_key occ =
     (case occ of (idx, p) \<Rightarrow>
        (let keys = key_for_player L p in
         if keys = [] then
           (let k = asc ''index::'' @ dec idx in setdefault_append by_key k (idx, p))
         else foldl (\<lambda>by_key k. setdefault_append by_key k (idx, p)) by_key keys))"

text \<open>The second loop over \<open>by_key.items()\<close>, with \<open>groups\<close> and \<open>seen_member_ids\<close>.\<close>

fun fd_collect :: "(ustr \<times> fd_occ list) list \<Rightarrow> dup_group list \<Rightarrow> nat list set \<Rightarrow> dup_group list" where
  "fd_collect [] groups seen_member_ids = groups"
| "fd_collect ((k, lst) # rest) groups seen_member_ids =
     (if 1 < length lst then
        (let member_ids = sort (map fst lst) in
         if member_ids \<in> seen_member_ids then fd_collect rest groups seen_member_ids
         else fd_collect rest
                (groups @ [\<lparr> g_key = k, g_indices = map fst lst, g_members = map snd lst \<rparr>])
                (insert member_ids seen_member_ids))
      else fd_collect rest groups seen_member_ids)"

definition find_duplicates :: "pylib \<Rightarrow> pydict list \<Rightarrow> dup_group list" where
  "find_duplicates L players =
     (let by_key = foldl (fd_register L) [] (enumerate 0 players)
      in fd_collect by_key [] {})"

subsection \<open>Groups across both datasets: \<open>find_common_groups\<close>\<close>

text \<open>An occurrence \<open>(filetag, idx, p)\<close>; a signature is the sorted tuple of its
  \<open>(file, index)\<close> pairs.\<close>

type_synonym cg_occ = "ustr \<times> nat \<times> pydict"
type_synonym signature = "(ustr \<times> nat) list"

record common_group =
  cg_keys :: "ustr list"
  cg_total_count :: nat
  cg_occurrences :: "cg_occ list"
  cg_present_in :: "ustr list"

definition compact_player_view :: "pydict \<Rightarrow> pydict" where
  "compact_player_view p =
     [(asc ''name'', dict_get p (asc ''name'')),
      (asc ''name_ar'', dict_get p (asc ''name_ar'')),
      (asc ''transfermarkt_id'',
         py_or (py_or (dict_get p (asc ''transfermarkt_id'')) (dict_get p (asc ''id''))) PNone),
      (asc ''transfermarkt_url'',
         py_or (dict_get p (asc ''transfermarkt_url'')) (dict_get p (asc ''transfermarktUrl''))),
      (asc ''wikipedia_url_provided'',
         py_or (py_or (dict_get p (asc ''wikipedia_url_provided'')) (dict_get p (asc ''wikipedia_url'')))
               (dict_get p (asc ''wikipedia'')))]"

definition fcg_register :: "pylib \<Rightarrow> (ustr \<times> cg_occ list) list \<Rightarrow> cg_occ \<Rightarrow> (ustr \<times> cg_occ list) list" where
  "fcg_register L groups_map occ =
     (case occ of (filetag, idx, p) \<Rightarrow>
        (let keys = canonical_keys L p in
         if keys = [] then
           (let k = asc ''raw::'' @ filetag @ asc ''::'' @ dec idx
            in setdefault_append groups_map k (filetag, idx, p))
         else foldl (\<lambda>groups_map k. setdefault_append groups_map k (filetag, idx, p)) groups_map keys))"

definition occ_signature :: "cg_occ list \<Rightarrow> signature" where
  "occ_signature occ = sort (map (\<lambda>(file, idx, p). (file, idx)) occ)"

text \<open>
  The loop over \<open>groups_map.items()\<close>. The group objects are shared between
  \<open>final_groups\<close> and \<open>seen_signatures\<close>: \<open>seen_signatures\<close> holds, for a signature, the
  position of its group in \<open>final_groups\<close>, and appending a key through it changes that
  element of \<open>final_groups\<close>.
\<close>

fun fcg_collect :: "(ustr \<times> cg_occ list) list \<Rightarrow> (signature \<rightharpoonup> nat) \<Rightarrow> common_group list \<Rightarrow> common_group list" where
  "fcg_collect [] seen_signatures final_groups = final_groups"
| "fcg_collect ((k, occ) # rest) seen_signatures final_groups =
     (let sig = occ_signature occ in
      if length sig \<le> 1 then fcg_collect rest seen_signatures final_groups
      else
        (case seen_signatures sig of
           Some r \<Rightarrow>
             fcg_collect rest seen_signatures
               (final_groups[r := (final_groups ! r)\<lparr> cg_keys := cg_keys (final_groups ! r) @ [k] \<rparr>])
         | None \<Rightarrow>
             (let g = \<lparr> cg_keys = [k],
                        cg_total_count = length occ,
                        cg_occurrences = map (\<lambda>(file, idx, p). (file, idx, compact_player_view p)) occ,
                        cg_present_in = sort (remdups (map fst occ)) \<rparr>
              in fcg_collect rest (seen_signatures(sig \<mapsto> length final_groups)) (final_groups @ [g]))))"

definition find_common_groups :: "pylib \<Rightarrow> pydict list \<Rightarrow> pydict list \<Rightarrow> common_group list" where
  "find_common_groups L source_list target_list =
     (let combined = map (\<lambda>(i, p). (asc ''source'', i, p)) (enumerate 0 source_list)
                     @ map (\<lambda>(i, p). (asc ''target'', i, p)) (enumerate 0 target_list);
          groups_map = foldl (fcg_register L) [] combined
      in fcg_collect groups_map Map.empty [])"

section \<open>Resolver\<close>

text \<open>
  \<open>build_target_lookup\<close> returns two sets. \<open>ids\<close> is only asked for membership;
  \<open>normnames\<close> is also iterated, so it is a duplicate-free list (the order in which Python
  iterates over a set is not specified, and nothing below depends on it).
\<close>

definition btl_step :: "pylib \<Rightarrow> ustr set \<times> ustr list \<Rightarrow> pydict \<Rightarrow> ustr set \<times> ustr list" where
  "btl_step L st p =
     (case st of (ids, normnames) \<Rightarrow>
        (let tid = resolve_tid L p;
             ids = (if tid \<noteq> PNone then insert (py_str L tid) ids else ids);
             name = py_or (dict_get p (asc ''name'')) (PStr []);
             nn = normalize_name L name;
             normnames = (if nn \<noteq> [] then List.insert nn normnames else normnames)
         in (ids, normnames)))"

definition build_target_lookup :: "pylib \<Rightarrow> pydict list \<Rightarrow> ustr set \<times> ustr list" where
  "build_target_lookup L target_players = foldl (btl_step L) ({}, []) target_players"

text \<open>The fuzzy scan: \<open>best\<close> starts at 0.0 and every candidate is compared.\<close>

definition fuzzy_best :: "ustr \<Rightarrow> ustr list \<Rightarrow> rat" where
  "fuzzy_best nn target_normnames =
     foldl (\<lambda>best cand. (let r = similar nn cand in if best < r then r else best)) 0 target_normnames"

text \<open>\<open>tid_s\<close>: \<open>str(tid)\<close>, or \<open>None\<close>.\<close>

definition tid_s_of :: "pylib \<Rightarrow> pydict \<Rightarrow> ustr option" where
  "tid_s_of L p = (let tid = resolve_tid L p in if tid \<noteq> PNone then Some (py_str L tid) else None)"

text \<open>The part of the loop body that computes \<open>found\<close>.\<close>

definition found_in_target :: "pylib \<Rightarrow> ustr set \<Rightarrow> ustr list \<Rightarrow> rat \<Rightarrow> pydict \<Rightarrow> bool" where
  "found_in_target L target_ids target_normnames fuzzy_threshold p =
     (let tid_s = tid_s_of L p;
          found = False;
          found = (if (case tid_s of Some s \<Rightarrow> s \<noteq> [] \<and> s \<in> target_ids | None \<Rightarrow> False)
                   then True else found);
          name = py_or (dict_get p (asc ''name'')) (PStr []);
          nn = normalize_name L name;
          found = (if \<not> found \<and> nn \<noteq> [] \<and> nn \<in> set target_normnames then True else found);
          found = (if \<not> found \<and> nn \<noteq> []
                   then (let best = fuzzy_best nn target_normnames
                         in if fuzzy_threshold \<le> best then True else found)
                   else found)
      in found)"

text \<open>
  The duplicate membership of a record: the loop over its keys that fills
  \<open>dup_locations\<close> and \<open>dup_info\<close>. \<open>dup_src_map\<close> and \<open>dup_tgt_map\<close> are dictionaries
  built by a comprehension, where the last group of a key wins.
\<close>

definition group_map_get :: "dup_group list \<Rightarrow> ustr \<Rightarrow> dup_group option" where
  "group_map_get groups k = map_of (rev (map (\<lambda>g. (g_key g, g)) groups)) k"

definition dup_scan_step ::
  "dup_group list \<Rightarrow> dup_group list \<Rightarrow> ustr list \<times> (ustr \<times> dup_group option) list \<Rightarrow> ustr
     \<Rightarrow> ustr list \<times> (ustr \<times> dup_group option) list" where
  "dup_scan_step dup_src_groups dup_tgt_groups st k =
     (case st of (dup_locations, dup_info) \<Rightarrow>
        (let dup_src_keys = set (map g_key dup_src_groups);
             dup_tgt_keys = set (map g_key dup_tgt_groups);
             (dup_locations, dup_info) =
               (if k \<in> dup_src_keys
                then (dup_locations @ [asc ''source''],
                      dup_info @ [(k, group_map_get dup_src_groups k)])
                else (dup_locations, dup_info))
         in if k \<in> dup_tgt_keys
            then (dup_locations @ [asc ''target''],
                  dup_info @ [(k, group_map_get dup_tgt_groups k)])
            else (dup_locations, dup_info)))"

definition dup_scan ::
  "dup_group list \<Rightarrow> dup_group list \<Rightarrow> ustr list \<Rightarrow> ustr list \<times> (ustr \<times> dup_group option) list" where
  "dup_scan dup_src_groups dup_tgt_groups keys =
     foldl (dup_scan_step dup_src_groups dup_tgt_groups) ([], []) keys"

text \<open>\<open>sorted(set(dup_locations))\<close>.\<close>

definition dup_locations_of :: "pylib \<Rightarrow> dup_group list \<Rightarrow> dup_group list \<Rightarrow> pydict \<Rightarrow> ustr list" where
  "dup_locations_of L dup_src_groups dup_tgt_groups p =
     sort (remdups (fst (dup_scan dup_src_groups dup_tgt_groups (key_for_player L p))))"

definition group_summary :: "ustr \<Rightarrow> dup_group \<Rightarrow> pyval" where
  "group_summary k g =
     PDict [(asc ''key'', PStr k),
            (asc ''member_count'', PInt (int (length (g_members g)))),
            (asc ''members_preview'',
               PList (map (\<lambda>m. PDict [(asc ''name'', dict_get m (asc ''name'')),
                                        (asc ''transfermarkt_id'',
                                           py_or (dict_get m (asc ''transfermarkt_id''))
                                                 (dict_get m (asc ''id'')))])
                          (take 5 (g_members g))))]"

text \<open>The entry of a record, as it stands before \<open>missing\<close> is set.\<close>

definition base_entry :: "pylib \<Rightarrow> dup_group list \<Rightarrow> dup_group list \<Rightarrow> pydict \<Rightarrow> pydict" where
  "base_entry L dup_src_groups dup_tgt_groups p =
     (let entry =
            [(asc ''name'', dict_get p (asc ''name'')),
             (asc ''name_ar'', dict_get p (asc ''name_ar'')),
             (asc ''transfermarkt_url'',
                py_or (dict_get p (asc ''transfermarkt_url'')) (dict_get p (asc ''transfermarktUrl''))),
             (asc ''wikipedia_url_provided'',
                py_or (py_or (dict_get p (asc ''wikipedia_url_provided''))
                             (dict_get p (asc ''wikipedia_url'')))
                      (dict_get p (asc ''wikipedia''))),
             (asc ''transfermarkt_id'',
                (case tid_s_of L p of Some s \<Rightarrow> PStr s | None \<Rightarrow> PNone))];
          dup_info = snd (dup_scan dup_src_groups dup_tgt_groups (key_for_player L p));
          dup_locations = dup_locations_of L dup_src_groups dup_tgt_groups p
      in if dup_locations \<noteq> [] then
           (let entry = dict_set entry (asc ''duplicate'') (PBool True);
                entry = dict_set entry (asc ''duplicate_in'') (PList (map PStr dup_locations));
                entry = dict_set entry (asc ''duplicate_groups'')
                          (PList (concat (map (\<lambda>(k, g). case g of Some g \<Rightarrow> [group_summary k g]
                                                                   | None \<Rightarrow> [])
                                              dup_info)))
            in entry)
         else entry)"

text \<open>The loop body for one source record: \<open>missing\<close> before and after.\<close>

definition fm_step ::
  "pylib \<Rightarrow> ustr set \<Rightarrow> ustr list \<Rightarrow> dup_group list \<Rightarrow> dup_group list \<Rightarrow> rat
     \<Rightarrow> pydict list \<Rightarrow> pydict \<Rightarrow> pydict list" where
  "fm_step L target_ids target_normnames dup_src_groups dup_tgt_groups fuzzy_threshold missing p =
     (let found = found_in_target L target_ids target_normnames fuzzy_threshold p;
          entry = base_entry L dup_src_groups dup_tgt_groups p;
          dup_locations = dup_locations_of L dup_src_groups dup_tgt_groups p
      in if \<not> found then missing @ [dict_set entry (asc ''missing'') (PBool True)]
         else if dup_locations \<noteq> [] then missing @ [dict_set entry (asc ''missing'') (PBool False)]
         else missing)"

definition find_missing_and_flag_duplicates ::
  "pylib \<Rightarrow> pydict list \<Rightarrow> ustr set \<Rightarrow> ustr list \<Rightarrow> dup_group list \<Rightarrow> dup_group list \<Rightarrow> rat
     \<Rightarrow> pydict list" where
  "find_missing_and_flag_duplicates L source target_ids target_normnames
       dup_src_groups dup_tgt_groups fuzzy_threshold =
     foldl (fm_step L target_ids target_normnames dup_src_groups dup_tgt_groups fuzzy_threshold)
           [] source"

text \<open>
  What \<open>main\<close> computes between loading the two files and writing the reports: the two
  lists of duplicate groups and the list of classified records.
\<close>

definition run_report ::
  "pylib \<Rightarrow> pydict list \<Rightarrow> pydict list \<Rightarrow> rat \<Rightarrow> dup_group list \<times> dup_group list \<times> pydict list" where
  "run_report L src tgt fuzzy =
     (let dup_src_groups = find_duplicates L src;
          dup_tgt_groups = find_duplicates L tgt;
          (target_ids, target_normnames) = build_target_lookup L tgt;
          missing_and_dup_flagged =
            find_missing_and_flag_duplicates L src target_ids target_normnames
              dup_src_groups dup_tgt_groups fuzzy
      in (dup_src_groups, dup_tgt_groups, missing_and_dup_flagged))"

section \<open>ReportWriter\<close>

text \<open>
  \<open>write_csv\<close>: \<open>None\<close> when nothing is written; otherwise the field names given to the
  \<open>DictWriter\<close> and the dictionary given to \<open>writerow\<close> for each row. \<open>list(keys)\<close> lists a
  set in an order Python does not specify: the listing is the parameter \<open>list_of_set\<close>.
\<close>

definition csv_cell :: "pylib \<Rightarrow> pyval \<Rightarrow> pyval" where
  "csv_cell L v =
     (if v = PNone then PStr []
      else (case v of PList xs \<Rightarrow> PStr (json_dumps L v) | PDict kvs \<Rightarrow> PStr (json_dumps L v) | _ \<Rightarrow> v))"

definition write_csv ::
  "pylib \<Rightarrow> (ustr set \<Rightarrow> ustr list) \<Rightarrow> pydict list \<Rightarrow> (ustr list \<times> pydict list) option" where
  "write_csv L list_of_set data =
     (if data = [] then None
      else
        (let keys = foldl (\<lambda>keys d. keys \<union> set (map fst d)) {} data;
             keys = list_of_set keys
         in Some (keys, map (\<lambda>row. map (\<lambda>k. (k, csv_cell L (dict_get row k))) keys) data)))"

section \<open>Properties of the Resolver\<close>

text \<open>The normalized name of a record, as every function computes it.\<close>

definition norm_name_of :: "pylib \<Rightarrow> pydict \<Rightarrow> ustr" where
  "norm_name_of L p = normalize_name L (py_or (dict_get p (asc ''name'')) (PStr []))"

lemma fuzzy_fold_Max:
  "foldl (\<lambda>best cand. (let r = f cand in if best < r then r else best)) b cands
     = Max (insert b (f ` set cands))"
  for b :: rat
proof (induction cands arbitrary: b)
  case Nil
  then show ?case by simp
next
  case (Cons c cands)
  have "(let r = f c in if b < r then r else b) = max b (f c)" by (simp add: Let_def max_def)
  then have "foldl (\<lambda>best cand. (let r = f cand in if best < r then r else best)) b (c # cands)
      = Max (insert (max b (f c)) (f ` set cands))"
    using Cons[of "max b (f c)"] by simp
  also have "\<dots> = Max (insert b (f ` set (c # cands)))"
  proof -
    have "Max (insert b (insert (f c) (f ` set cands))) = max b (Max (insert (f c) (f ` set cands)))"
      by (rule Max_insert) simp_all
    moreover have "Max (insert (f c) (f ` set cands))
        = (if f ` set cands = {} then f c else max (f c) (Max (f ` set cands)))"
      by (simp add: Max_insert)
    moreover have "Max (insert (max b (f c)) (f ` set cands))
        = (if f ` set cands = {} then max b (f c) else max (max b (f c)) (Max (f ` set cands)))"
      by (simp add: Max_insert)
    ultimately show ?thesis by (simp add: max.assoc)
  qed
  finally show ?case .
qed

lemma fuzzy_best_Max: "fuzzy_best nn names = Max (insert 0 (similar nn ` set names))"
  unfolding fuzzy_best_def by (rule fuzzy_fold_Max)

lemma fuzzy_best_ge_iff:
  assumes "0 < th"
  shows "th \<le> fuzzy_best nn names \<longleftrightarrow> (\<exists>cand\<in>set names. th \<le> similar nn cand)"
proof -
  have fin: "finite (insert 0 (similar nn ` set names))" by simp
  have "th \<le> fuzzy_best nn names \<longleftrightarrow> (\<exists>x\<in>insert 0 (similar nn ` set names). th \<le> x)"
    unfolding fuzzy_best_Max using Max_ge_iff[OF fin, of th] by blast
  also have "\<dots> \<longleftrightarrow> (\<exists>cand\<in>set names. th \<le> similar nn cand)"
    using assms by auto
  finally show ?thesis .
qed

lemma found_in_target_iff:
  "found_in_target L ids names th p \<longleftrightarrow>
     (\<exists>s. tid_s_of L p = Some s \<and> s \<noteq> [] \<and> s \<in> ids)
     \<or> (norm_name_of L p \<noteq> [] \<and> norm_name_of L p \<in> set names)
     \<or> (norm_name_of L p \<noteq> [] \<and> th \<le> Max (insert 0 (similar (norm_name_of L p) ` set names)))"
  unfolding found_in_target_def norm_name_of_def Let_def fuzzy_best_Max
  by (cases "tid_s_of L p") auto

lemma btl_step_eq:
  "btl_step L (ids, names) q
     = (ids \<union> {s. tid_s_of L q = Some s},
        if norm_name_of L q \<noteq> [] then List.insert (norm_name_of L q) names else names)"
  by (auto simp: btl_step_def tid_s_of_def norm_name_of_def Let_def)

lemma build_target_lookup_fold:
  "foldl (btl_step L) (ids0, names0) tgt = (ids1, names1) \<Longrightarrow>
   ids1 = ids0 \<union> {s. \<exists>q\<in>set tgt. tid_s_of L q = Some s}
   \<and> set names1 = set names0 \<union> {n. \<exists>q\<in>set tgt. norm_name_of L q = n \<and> n \<noteq> []}
   \<and> (distinct names0 \<longrightarrow> distinct names1)"
proof (induction tgt arbitrary: ids0 names0)
  case Nil
  then show ?case by simp
next
  case (Cons q tgt)
  define ids' where "ids' = ids0 \<union> {s. tid_s_of L q = Some s}"
  define names' where
    "names' = (if norm_name_of L q \<noteq> [] then List.insert (norm_name_of L q) names0 else names0)"
  from Cons.prems have "foldl (btl_step L) (ids', names') tgt = (ids1, names1)"
    by (simp add: btl_step_eq ids'_def names'_def)
  from Cons.IH[OF this]
  have a: "ids1 = ids' \<union> {s. \<exists>q\<in>set tgt. tid_s_of L q = Some s}"
    and b: "set names1 = set names' \<union> {n. \<exists>q\<in>set tgt. norm_name_of L q = n \<and> n \<noteq> []}"
    and c: "distinct names' \<longrightarrow> distinct names1" by simp_all
  have n: "set names' = set names0 \<union> {n. norm_name_of L q = n \<and> n \<noteq> []}"
    by (auto simp: names'_def)
  have d: "distinct names0 \<longrightarrow> distinct names'" by (simp add: names'_def)
  show ?case using a b c n d unfolding ids'_def by auto
qed

lemma build_target_lookup_sets:
  "fst (build_target_lookup L tgt) = {s. \<exists>q\<in>set tgt. tid_s_of L q = Some s}"
  "set (snd (build_target_lookup L tgt)) = {n. \<exists>q\<in>set tgt. norm_name_of L q = n \<and> n \<noteq> []}"
  "distinct (snd (build_target_lookup L tgt))"
  using build_target_lookup_fold[of L "{}" "[]" tgt "fst (build_target_lookup L tgt)"
      "snd (build_target_lookup L tgt)"]
  by (simp_all add: build_target_lookup_def)

lemma dict_get_dict_set_same: "dict_get (dict_set d k v) k = v"
  by (induction d k v rule: dict_set.induct) (auto simp: dict_get_def)

lemma fm_steps_append:
  "foldl (fm_step L ids names dsg dtg th) acc source
     = acc @ foldl (fm_step L ids names dsg dtg th) [] source"
proof (induction source arbitrary: acc)
  case Nil
  then show ?case by simp
next
  case (Cons p ps)
  have "fm_step L ids names dsg dtg th acc p = acc @ fm_step L ids names dsg dtg th [] p"
    by (simp add: fm_step_def Let_def)
  then show ?case using Cons[of "acc @ fm_step L ids names dsg dtg th [] p"]
      Cons[of "fm_step L ids names dsg dtg th [] p"] by simp
qed

text \<open>
  A record is duplicate-flagged when one of its own keys is the key of a duplicate group
  of the source or of the target.
\<close>

definition duplicate_flagged :: "pylib \<Rightarrow> dup_group list \<Rightarrow> dup_group list \<Rightarrow> pydict \<Rightarrow> bool" where
  "duplicate_flagged L dsg dtg p \<longleftrightarrow>
     (\<exists>k\<in>set (key_for_player L p). k \<in> g_key ` set dsg \<or> k \<in> g_key ` set dtg)"

lemma dup_scan_step_fst:
  "fst (dup_scan_step dsg dtg st k)
     = fst st @ (if k \<in> g_key ` set dsg then [asc ''source''] else [])
              @ (if k \<in> g_key ` set dtg then [asc ''target''] else [])"
  by (cases st) (simp add: dup_scan_step_def Let_def)

lemma dup_scan_fold_fst:
  "fst (foldl (dup_scan_step dsg dtg) st keys)
     = fst st @ concat (map (\<lambda>k. (if k \<in> g_key ` set dsg then [asc ''source''] else [])
                                  @ (if k \<in> g_key ` set dtg then [asc ''target''] else [])) keys)"
  by (induction keys arbitrary: st) (simp_all add: dup_scan_step_fst)

lemma dup_scan_locs:
  "set (fst (dup_scan dsg dtg keys))
     = (if \<exists>k\<in>set keys. k \<in> g_key ` set dsg then {asc ''source''} else {})
       \<union> (if \<exists>k\<in>set keys. k \<in> g_key ` set dtg then {asc ''target''} else {})"
  unfolding dup_scan_def dup_scan_fold_fst by auto

lemma dup_locations_set:
  "set (dup_locations_of L dsg dtg p)
     = (if \<exists>k\<in>set (key_for_player L p). k \<in> g_key ` set dsg then {asc ''source''} else {})
       \<union> (if \<exists>k\<in>set (key_for_player L p). k \<in> g_key ` set dtg then {asc ''target''} else {})"
  by (simp add: dup_locations_of_def dup_scan_locs)

lemma dup_locations_flagged:
  "dup_locations_of L dsg dtg p \<noteq> [] \<longleftrightarrow> duplicate_flagged L dsg dtg p"
proof -
  have "dup_locations_of L dsg dtg p \<noteq> [] \<longleftrightarrow> set (dup_locations_of L dsg dtg p) \<noteq> {}"
    by simp
  also have "\<dots> \<longleftrightarrow> duplicate_flagged L dsg dtg p"
    unfolding dup_locations_set duplicate_flagged_def by auto
  finally show ?thesis .
qed

lemma find_missing_concat:
  "find_missing_and_flag_duplicates L source ids names dsg dtg th
     = concat (map (fm_step L ids names dsg dtg th []) source)"
  unfolding find_missing_and_flag_duplicates_def
proof (induction source)
  case Nil
  then show ?case by simp
next
  case (Cons p ps)
  have "foldl (fm_step L ids names dsg dtg th) [] (p # ps)
      = fm_step L ids names dsg dtg th [] p @ foldl (fm_step L ids names dsg dtg th) [] ps"
    using fm_steps_append[of L ids names dsg dtg th "fm_step L ids names dsg dtg th [] p" ps]
    by simp
  then show ?case using Cons by simp
qed

lemma fm_step_outcome:
  "(found_in_target L ids names th p \<and> \<not> duplicate_flagged L dsg dtg p
      \<and> fm_step L ids names dsg dtg th [] p = [])
   \<or> (\<not> found_in_target L ids names th p
      \<and> (\<exists>e. fm_step L ids names dsg dtg th [] p = [e]
              \<and> dict_get e (asc ''missing'') = PBool True))
   \<or> (found_in_target L ids names th p \<and> duplicate_flagged L dsg dtg p
      \<and> (\<exists>e. fm_step L ids names dsg dtg th [] p = [e]
              \<and> dict_get e (asc ''missing'') = PBool False))"
  unfolding dup_locations_flagged[symmetric]
  by (simp add: fm_step_def Let_def dict_get_dict_set_same)

text \<open>
  C1. The report is the concatenation, in the order of the source, of what the loop body
  appends for each source record, and for every record exactly one of three cases
  holds: found and not duplicate-flagged, and nothing is appended; not found, and one
  entry with \<open>missing = True\<close> is appended; found and duplicate-flagged, and one entry
  with \<open>missing = False\<close> is appended. The conditions of the three cases exclude one
  another.
\<close>

theorem resolver_partition:
  "find_missing_and_flag_duplicates L source ids names dsg dtg th
     = concat (map (fm_step L ids names dsg dtg th []) source)
   \<and> (\<forall>p.
        (found_in_target L ids names th p \<and> \<not> duplicate_flagged L dsg dtg p
           \<and> fm_step L ids names dsg dtg th [] p = [])
        \<or> (\<not> found_in_target L ids names th p
           \<and> (\<exists>e. fm_step L ids names dsg dtg th [] p = [e]
                   \<and> dict_get e (asc ''missing'') = PBool True))
        \<or> (found_in_target L ids names th p \<and> duplicate_flagged L dsg dtg p
           \<and> (\<exists>e. fm_step L ids names dsg dtg th [] p = [e]
                   \<and> dict_get e (asc ''missing'') = PBool False)))"
  using find_missing_concat fm_step_outcome by blast

text \<open>
  C3, as the code has it. A source record is found if and only if (a) it has an identifier
  whose text is not empty and is in the set of target identifiers, or (b) its normalized
  name is not empty and is one of the target's normalized names, or (c) its normalized
  name is not empty and the largest similarity between it and the target's normalized
  names, all of them compared and 0 when there are none, reaches the threshold; for a
  positive threshold (c) says that some target name reaches it. The two sets are those
  \<open>build_target_lookup\<close> collects from the target.
\<close>

theorem resolver_found_rules:
  "(found_in_target L ids names th p \<longleftrightarrow>
      (\<exists>s. tid_s_of L p = Some s \<and> s \<noteq> [] \<and> s \<in> ids)
      \<or> (norm_name_of L p \<noteq> [] \<and> norm_name_of L p \<in> set names)
      \<or> (norm_name_of L p \<noteq> []
          \<and> th \<le> Max (insert 0 (similar (norm_name_of L p) ` set names))))
   \<and> (0 < th \<longrightarrow>
        (th \<le> Max (insert 0 (similar (norm_name_of L p) ` set names))
           \<longleftrightarrow> (\<exists>cand\<in>set names. th \<le> similar (norm_name_of L p) cand)))
   \<and> fst (build_target_lookup L tgt) = {s. \<exists>q\<in>set tgt. tid_s_of L q = Some s}
   \<and> set (snd (build_target_lookup L tgt))
        = {n. \<exists>q\<in>set tgt. norm_name_of L q = n \<and> n \<noteq> []}"
  using found_in_target_iff[of L ids names th p]
        fuzzy_best_ge_iff[of th "norm_name_of L p" names]
        build_target_lookup_sets(1,2)[of L tgt]
  unfolding fuzzy_best_Max by blast

section \<open>Concrete inputs\<close>

definition player_two_aliases :: pydict where
  "player_two_aliases =
     [(asc ''transfermarkt_id'', PStr []), (asc ''transfermarktId'', PStr (asc ''7'')),
      (asc ''name'', PStr (asc ''Jon Smith''))]"

definition player_generic_id :: pydict where
  "player_generic_id = [(asc ''id'', PInt 42), (asc ''transfermarkt_id'', PNone)]"

theorem key_extractor_keys_witness:
  "find truthy (map (dict_get player_two_aliases) id_aliases) = Some (PStr (asc ''7''))
   \<and> resolve_tid latin1_lib player_two_aliases = PStr (asc ''7'')
   \<and> key_for_player latin1_lib player_two_aliases = [asc ''tid::7'', asc ''name::jon smith'']
   \<and> list_all (\<lambda>k. dict_get player_generic_id k = PNone) id_aliases
   \<and> resolve_tid latin1_lib player_generic_id = PInt 42"
proof -
  have f: "find truthy (map (dict_get player_two_aliases) id_aliases) = Some (PStr (asc ''7''))"
    by code_simp
  have n: "list_all (\<lambda>k. dict_get player_generic_id k = PNone) id_aliases"
    by code_simp
  have ok: "id_fallback_ok latin1_lib (dict_get player_generic_id (asc ''id''))"
    and v: "dict_get player_generic_id (asc ''id'') = PInt 42"
    by code_simp+
  have k: "key_for_player latin1_lib player_two_aliases = [asc ''tid::7'', asc ''name::jon smith'']"
    by code_simp
  from key_extractor_keys[of latin1_lib player_two_aliases] f
  have "resolve_tid latin1_lib player_two_aliases = PStr (asc ''7'')" by blast
  moreover from key_extractor_keys[of latin1_lib player_generic_id] n ok v
  have "resolve_tid latin1_lib player_generic_id = PInt 42" by simp
  ultimately show ?thesis using f n k by simp
qed

text \<open>
  The first alias of this record is present and not null (it is the empty string), and
  the identifier is taken from the second alias.
\<close>

theorem key_extractor_first_non_null_counterexample:
  "dict_get player_two_aliases (asc ''transfermarkt_id'') = PStr []
   \<and> PStr [] \<noteq> PNone
   \<and> key_for_player latin1_lib player_two_aliases = [asc ''tid::7'', asc ''name::jon smith'']"
  by code_simp

text \<open>
  The similarity depends on the order of its arguments, and two empty strings, which
  share no character, have similarity 1.
\<close>

theorem similar_symmetric_counterexample:
  "similar (asc ''tide'') (asc ''diet'') = 1 / 4
   \<and> similar (asc ''diet'') (asc ''tide'') = 1 / 2
   \<and> set ([] :: ustr) \<inter> set ([] :: ustr) = {}
   \<and> similar [] [] = 1"
proof -
  have "similar (asc ''tide'') (asc ''diet'') = 1 / 4" by code_simp
  moreover have "similar (asc ''diet'') (asc ''tide'') = 1 / 2" by code_simp
  moreover have "similar [] [] = 1" by (simp add: similar_def ratio_empty)
  ultimately show ?thesis by simp
qed

end
